theory Spec2Isabelle
  imports Main "HOL-Library.AList" "HOL-Library.Sublist"
begin

section \<open>Python strings\<close>

text \<open>
  The operations \<open>split\<close>, \<open>join\<close>, \<open>replace\<close> and \<open>in\<close> only compare
  characters, so they are defined for lists over any character type. Where the code
  does no more than that (\<open>clear_key\<close>, \<open>resolve_payloads\<close>) a Python \<open>str\<close> is a
  \<open>string\<close>. \<open>str.title\<close> needs the case of every character: there
  (\<open>to_camelcase\<close>) a \<open>str\<close> is the list of its code points, and the case tables of
  the interpreter's Unicode character database are a parameter.
\<close>

subsection \<open>\<open>sep.join(words)\<close>\<close>

fun join :: "'a list \<Rightarrow> 'a list list \<Rightarrow> 'a list" where
  "join sep [] = []"
| "join sep [w] = w"
| "join sep (w # v # ws) = w @ sep @ join sep (v # ws)"

subsection \<open>\<open>s.split(c)\<close> for a one-character separator\<close>

text \<open>
  \<open>s.split(":")\<close> cuts at every separator and keeps empty segments, so the result has one
  segment more than \<open>s\<close> has separators; it is never the empty list, and the second
  branch of the \<open>case\<close> below is the only one taken (lemma \<open>split_on_not_Nil\<close>).
\<close>

fun split_on :: "'a \<Rightarrow> 'a list \<Rightarrow> 'a list list" where
  "split_on c [] = [[]]"
| "split_on c (x # xs) =
     (if x = c then [] # split_on c xs
      else (case split_on c xs of [] \<Rightarrow> [[x]] | w # ws \<Rightarrow> (x # w) # ws))"

subsection \<open>\<open>s.replace(old, new)\<close>\<close>

text \<open>
  Python replaces the occurrences of \<open>old\<close> from left to right, without overlap. For an
  empty \<open>old\<close> it puts \<open>new\<close> before every character and at the end.
\<close>

function str_replace :: "'a list \<Rightarrow> 'a list \<Rightarrow> 'a list \<Rightarrow> 'a list" where
  "str_replace old new [] = (if old = [] then new else [])"
| "str_replace old new (c # cs) =
     (if old = [] then new @ c # str_replace old new cs
      else if prefix old (c # cs) then new @ str_replace old new (drop (length old) (c # cs))
      else c # str_replace old new cs)"
  by pat_completeness auto
termination
  by (relation "measure (\<lambda>(old, new, s). length s)") auto

subsection \<open>\<open>s.title()\<close>\<close>

type_synonym codepoint = nat

text \<open>A \<open>str\<close> as the list of its code points.\<close>

type_synonym ustr = "codepoint list"

text \<open>The code points of an ASCII literal.\<close>

definition of_ascii :: "string \<Rightarrow> ustr" where
  "of_ascii s = map of_char s"

text \<open>
  What \<open>str.title\<close> reads in the Unicode character database of the interpreter: whether
  a character is cased, whether it is case-ignorable, its full title-case mapping and
  its full lower-case mapping (a mapping may give more than one code point: the title
  case of U+00DF is "Ss"). The database is not part of the program and differs between
  Python versions, so it is a parameter.
\<close>

record unicode_db =
  cased :: "codepoint \<Rightarrow> bool"
  case_ignorable :: "codepoint \<Rightarrow> bool"
  title_full :: "codepoint \<Rightarrow> ustr"
  lower_full :: "codepoint \<Rightarrow> ustr"

text \<open>
  CPython lowers the capital sigma U+03A3 by its context: to the final sigma U+03C2 when
  the nearest character before it that is not case-ignorable is cased, and the nearest
  such character after it, if there is one, is not cased; to U+03C3 otherwise.
  \<open>seen\<close> holds the characters before the sigma, the nearest first, and \<open>rest\<close> the
  characters after it.
\<close>

definition handle_capital_sigma :: "unicode_db \<Rightarrow> ustr \<Rightarrow> ustr \<Rightarrow> codepoint" where
  "handle_capital_sigma db seen rest =
     (let final_sigma =
            (case dropWhile (case_ignorable db) seen of
               [] \<Rightarrow> False
             | c # _ \<Rightarrow> cased db c)
            \<and> (case dropWhile (case_ignorable db) rest of
                 [] \<Rightarrow> True
               | c # _ \<Rightarrow> \<not> cased db c)
      in if final_sigma then 0x3C2 else 0x3C3)"

definition lower_ucs4 :: "unicode_db \<Rightarrow> ustr \<Rightarrow> codepoint \<Rightarrow> ustr \<Rightarrow> ustr" where
  "lower_ucs4 db seen c rest =
     (if c = 0x3A3 then [handle_capital_sigma db seen rest] else lower_full db c)"

text \<open>
  CPython's \<open>str.title\<close> walks the string once and remembers whether the previous
  character was cased: a character after a cased one is lowered, any other character is
  put in title case.
\<close>

fun do_title :: "unicode_db \<Rightarrow> bool \<Rightarrow> ustr \<Rightarrow> ustr \<Rightarrow> ustr" where
  "do_title db previous_is_cased seen [] = []"
| "do_title db previous_is_cased seen (c # rest) =
     (if previous_is_cased then lower_ucs4 db seen c rest else title_full db c)
       @ do_title db (cased db c) (c # seen) rest"

definition str_title :: "unicode_db \<Rightarrow> ustr \<Rightarrow> ustr" where
  "str_title db s = do_title db False [] s"

section \<open>\<open>faststream/specification/asyncapi/utils.py\<close>: the name helpers\<close>

definition to_camelcase :: "unicode_db \<Rightarrow> ustr list \<Rightarrow> ustr" where
  "to_camelcase db names =
     str_replace (of_ascii '' '') (of_ascii '''')
       (str_title db
         (str_replace (of_ascii ''_'') (of_ascii '' '') (join (of_ascii '' '') names)))"

definition clear_key :: "string \<Rightarrow> string" where
  "clear_key key = str_replace ''/'' ''.'' key"

subsection \<open>Notions used to state the properties of \<open>to_camelcase\<close>\<close>

text \<open>
  Title case, position by position: the character at position \<open>i\<close> of a word is
  lowered when the character before it is cased, and put in title case when it is the
  first one or follows an uncased character.
\<close>

definition title_at :: "unicode_db \<Rightarrow> ustr \<Rightarrow> nat \<Rightarrow> ustr" where
  "title_at db w i =
     (if 0 < i \<and> cased db (w ! (i - 1))
      then lower_ucs4 db (rev (take i w)) (w ! i) (drop (Suc i) w)
      else title_full db (w ! i))"

definition title_word :: "unicode_db \<Rightarrow> ustr \<Rightarrow> ustr" where
  "title_word db w = concat (map (title_at db w) [0..<length w])"

text \<open>
  The camel-casing as the specification words it: the names are joined with spaces
  (U+0020), every underscore (U+005F) becomes a space, each word between spaces is
  title-cased, and all spaces are stripped.
\<close>

definition camelcase_by_words :: "unicode_db \<Rightarrow> ustr list \<Rightarrow> ustr" where
  "camelcase_by_words db names =
     filter (\<lambda>c. c \<noteq> 32)
       (concat (map (title_word db)
         (split_on 32 (map (\<lambda>c. if c = 95 then 32 else c) (join [32] names)))))"

text \<open>
  What the Unicode character database says of the space: it is not cased, not
  case-ignorable, and its own title case and lower case.
\<close>

definition space_plain :: "unicode_db \<Rightarrow> bool" where
  "space_plain db =
     (\<not> cased db 32 \<and> \<not> case_ignorable db 32
      \<and> title_full db 32 = [32] \<and> lower_full db 32 = [32])"

text \<open>
  The ASCII part of the Unicode character database: the letters are cased and map to
  each other, every other character maps to itself.
\<close>

definition ascii_db :: unicode_db where
  "ascii_db =
     \<lparr>cased = (\<lambda>c. (65 \<le> c \<and> c \<le> 90) \<or> (97 \<le> c \<and> c \<le> 122)),
      case_ignorable = (\<lambda>c. c \<in> {39, 46, 58, 94, 96}),
      title_full = (\<lambda>c. if 97 \<le> c \<and> c \<le> 122 then [c - 32] else [c]),
      lower_full = (\<lambda>c. if 65 \<le> c \<and> c \<le> 90 then [c + 32] else [c])\<rparr>"

text \<open>A database that has the case tables of ASCII on the ASCII characters.\<close>

definition ascii_cases :: "unicode_db \<Rightarrow> bool" where
  "ascii_cases db =
     (\<forall>c < 128.
        cased db c = cased ascii_db c
        \<and> title_full db c = title_full ascii_db c
        \<and> lower_full db c = lower_full ascii_db c)"

text \<open>
  An excerpt of the Unicode character database beyond ASCII: the letters U+00C0, U+00C9,
  U+00DF, U+00E0, U+00E9 of Latin-1 and the Greek letters U+0391, U+03A3, U+03B1, U+03C2,
  U+03C3.
\<close>

definition sample_db :: unicode_db where
  "sample_db =
     \<lparr>cased =
        (\<lambda>c. cased ascii_db c \<or> c \<in> {192, 201, 223, 224, 233, 913, 931, 945, 962, 963}),
      case_ignorable = case_ignorable ascii_db,
      title_full =
        (\<lambda>c. if c = 223 then [83, 115]
             else if c = 224 then [192]
             else if c = 233 then [201]
             else if c = 945 then [913]
             else if c = 962 \<or> c = 963 then [931]
             else title_full ascii_db c),
      lower_full =
        (\<lambda>c. if c = 192 then [224]
             else if c = 201 then [233]
             else if c = 913 then [945]
             else if c = 931 then [963]
             else lower_full ascii_db c)\<rparr>"

section \<open>Python objects\<close>

text \<open>
  \<open>resolve_payloads\<close> writes into the schema dictionaries it is given
  (\<open>body["title"] = ...\<close>) and returns dictionaries that refer to them, so dictionaries
  are objects in a store and a schema is the address of its dictionary. Two pairs of the
  input may hold the same address: they are then the same Python object.
\<close>

type_synonym addr = nat

datatype pyval =
    PNone
  | PBool bool
  | PInt int
  | PStr string
  | PList "pyval list"
  | PRef addr  \<comment> \<open>a dictionary, by reference\<close>

text \<open>
  A \<open>dict\<close> with string keys keeps its keys in insertion order: an association list
  with distinct keys. \<open>d[k] = v\<close> is \<open>AList.update k v d\<close>: the value of an existing
  key is replaced where it stands, a new key goes to the end.
\<close>

type_synonym pydict = "(string \<times> pyval) list"

text \<open>The store: the dictionary at address \<open>a\<close> is the \<open>a\<close>-th element.\<close>

type_synonym heap = "pydict list"

datatype error =
    KeyError string  \<comment> \<open>\<open>d[k]\<close> for a key that \<open>d\<close> does not have\<close>
  | AttributeError  \<comment> \<open>\<open>title.split\<close> for a title that is not a \<open>str\<close>\<close>
  | NoObject addr  \<comment> \<open>an address outside the store: not a Python object, never read\<close>

definition alloc :: "pydict \<Rightarrow> heap \<Rightarrow> addr \<times> heap" where
  "alloc d h = (length h, h @ [d])"

definition getitem :: "heap \<Rightarrow> addr \<Rightarrow> string \<Rightarrow> error + pyval" where
  "getitem h a k =
     (if a < length h
      then (case map_of (h ! a) k of None \<Rightarrow> Inl (KeyError k) | Some v \<Rightarrow> Inr v)
      else Inl (NoObject a))"

definition setitem :: "heap \<Rightarrow> addr \<Rightarrow> string \<Rightarrow> pyval \<Rightarrow> heap" where
  "setitem h a k v = (if a < length h then h[a := AList.update k v (h ! a)] else h)"

text \<open>
  \<open>xs[i:]\<close>: a negative \<open>i\<close> counts from the end, and a start outside the list is
  clipped to it.
\<close>

definition slice_from :: "'a list \<Rightarrow> int \<Rightarrow> 'a list" where
  "slice_from xs i =
     (if i < 0 then drop (nat (int (length xs) + i)) xs else drop (nat i) xs)"

section \<open>\<open>resolve_payloads\<close>\<close>

text \<open>
  The \<open>for\<close> loop of \<open>resolve_payloads\<close>, over the pairs still to visit.
  \<open>one_of_payloads\<close> is the address of the dictionary being filled. The loop stops at
  the first exception, and what it has written until then stays written.
\<close>

fun one_of_loop ::
  "addr \<Rightarrow> string \<Rightarrow> int \<Rightarrow> (addr \<times> string) list \<Rightarrow> heap \<Rightarrow> error option \<times> heap" where
  "one_of_loop one_of_payloads extra served_words [] h = (None, h)"
| "one_of_loop one_of_payloads extra served_words ((body, handler_name) # payloads) h =
     (case getitem h body ''title'' of
        Inl e \<Rightarrow> (Some e, h)
      | Inr (PStr title) \<Rightarrow>
          (let words = split_on CHR '':'' title in
           if length words > 1 then
             (let title' =
                    join '':''
                      (filter (\<lambda>w. w \<noteq> '''')
                        (handler_name
                          # (if extra \<notin> set words then extra else '''')
                          # slice_from words served_words));
                  h1 = setitem h body ''title'' (PStr title');
                  h2 = setitem h1 one_of_payloads title' (PRef body)
              in one_of_loop one_of_payloads extra served_words payloads h2)
           else
             one_of_loop one_of_payloads extra served_words payloads
               (setitem h one_of_payloads title (PRef body)))
      | Inr _ \<Rightarrow> (Some AttributeError, h))"

text \<open>
  The function returns the address of the payload dictionary and the store it leaves, or
  the exception and the store it leaves.
\<close>

definition resolve_payloads ::
  "(addr \<times> string) list \<Rightarrow> string \<Rightarrow> int \<Rightarrow> heap \<Rightarrow> (error + addr) \<times> heap" where
  "resolve_payloads payloads extra served_words h =
     (let ln = length payloads in
      if ln > 1 then
        (let (one_of_payloads, h1) = alloc [] h in
         case one_of_loop one_of_payloads extra served_words payloads h1 of
           (Some e, h2) \<Rightarrow> (Inl e, h2)
         | (None, h2) \<Rightarrow>
             (let (payload, h3) = alloc [(''oneOf'', PRef one_of_payloads)] h2
              in (Inr payload, h3)))
      else if ln = 1 then (Inr (fst (payloads ! 0)), h)
      else (let (payload, h1) = alloc [] h in (Inr payload, h1)))"

text \<open>The call with the default arguments \<open>extra = ""\<close> and \<open>served_words = 1\<close>.\<close>

definition resolve_payloads_default ::
  "(addr \<times> string) list \<Rightarrow> heap \<Rightarrow> (error + addr) \<times> heap" where
  "resolve_payloads_default payloads h = resolve_payloads payloads '''' 1 h"

subsection \<open>Notions used to state the properties\<close>

text \<open>The dictionary at an address, when there is one.\<close>

definition dict_at :: "heap \<Rightarrow> addr \<Rightarrow> pydict option" where
  "dict_at h a = (if a < length h then Some (h ! a) else None)"

text \<open>The title of a schema, when it has one and it is a string.\<close>

definition title_of :: "heap \<Rightarrow> addr \<Rightarrow> string option" where
  "title_of h a = (case getitem h a ''title'' of Inr (PStr t) \<Rightarrow> Some t | _ \<Rightarrow> None)"

text \<open>
  The specification's schema pair: a schema object that carries a "title" string field,
  and a handler name.
\<close>

definition schema_pairs :: "heap \<Rightarrow> (addr \<times> string) list \<Rightarrow> bool" where
  "schema_pairs h payloads =
     list_all (\<lambda>(body, handler_name). title_of h body \<noteq> None) payloads"

text \<open>
  The title under which the loop files a schema whose title is \<open>title\<close> when it is
  visited: lines 23 to 35 as a function of the title.
\<close>

definition final_title :: "string \<Rightarrow> int \<Rightarrow> string \<Rightarrow> string \<Rightarrow> string" where
  "final_title extra served_words handler_name title =
     (let words = split_on CHR '':'' title in
      if length words > 1 then
        join '':''
          (filter (\<lambda>w. w \<noteq> '''')
            (handler_name
              # (if extra \<notin> set words then extra else '''')
              # slice_from words served_words))
      else title)"

text \<open>
  The rewritten title as the specification words it: the ":"-join of the non-empty
  members of the handler name, the extra marker (only if it is non-empty and not one of
  the segments), and the segments that remain after dropping the first
  \<open>served_words\<close> of them.
\<close>

definition spec_title :: "string \<Rightarrow> int \<Rightarrow> string \<Rightarrow> string \<Rightarrow> string" where
  "spec_title extra served_words handler_name title =
     (let segments = split_on CHR '':'' title in
      join '':''
        (filter (\<lambda>w. w \<noteq> '''')
          ([handler_name]
            @ (if extra \<noteq> '''' \<and> extra \<notin> set segments then [extra] else [])
            @ drop (nat served_words) segments)))"

text \<open>
  The entries of the loop in the order it makes them: for each pair the title it
  resolves to and the schema. A schema that occurs again later in the list is read with
  the title an earlier visit gave it.
\<close>

fun resolved ::
  "string \<Rightarrow> int \<Rightarrow> heap \<Rightarrow> (addr \<times> string) list \<Rightarrow> (string \<times> addr) list" where
  "resolved extra served_words h [] = []"
| "resolved extra served_words h ((body, handler_name) # payloads) =
     (case title_of h body of
        None \<Rightarrow> []
      | Some t \<Rightarrow>
          (let k = final_title extra served_words handler_name t
           in (k, body)
                # resolved extra served_words (setitem h body ''title'' (PStr k)) payloads))"

text \<open>The store after the title assignments of the loop alone.\<close>

fun retitled :: "string \<Rightarrow> int \<Rightarrow> heap \<Rightarrow> (addr \<times> string) list \<Rightarrow> heap" where
  "retitled extra served_words h [] = h"
| "retitled extra served_words h ((body, handler_name) # payloads) =
     (case title_of h body of
        None \<Rightarrow> h
      | Some t \<Rightarrow>
          retitled extra served_words
            (setitem h body ''title'' (PStr (final_title extra served_words handler_name t)))
            payloads)"

text \<open>Filing entries into a dictionary one after the other.\<close>

definition file_entries :: "pydict \<Rightarrow> (string \<times> addr) list \<Rightarrow> pydict" where
  "file_entries d entries = foldl (\<lambda>d (k, b). AList.update k (PRef b) d) d entries"

text \<open>
  A schema whose title the loop rewrites: the title has more than one segment.
\<close>

definition rewritten :: "heap \<Rightarrow> addr \<Rightarrow> bool" where
  "rewritten h body =
     (case title_of h body of
        None \<Rightarrow> False
      | Some t \<Rightarrow> length (split_on CHR '':'' t) > 1)"

text \<open>No schema object that the loop rewrites occurs twice in the list.\<close>

definition rewritten_once :: "heap \<Rightarrow> (addr \<times> string) list \<Rightarrow> bool" where
  "rewritten_once h payloads =
     distinct (map fst (filter (\<lambda>(body, handler_name). rewritten h body) payloads))"

text \<open>The title that the \<open>j\<close>-th pair of the list resolves to (for \<open>j\<close> below the length).\<close>

definition resolved_title ::
  "string \<Rightarrow> int \<Rightarrow> heap \<Rightarrow> (addr \<times> string) list \<Rightarrow> nat \<Rightarrow> string" where
  "resolved_title extra served_words h payloads j =
     fst (resolved extra served_words h payloads ! j)"

section \<open>\<open>faststream/_internal/publisher/proto.py\<close>: the publisher\<close>

text \<open>
  \<open>proto.py\<close> declares the publisher as a protocol: the fields
  \<open>_broker_middlewares\<close>, \<open>_middlewares\<close> and
  \<open>_producer : Optional[ProducerProto]\<close>, and the abstract methods \<open>publish\<close>,
  \<open>_publish\<close>, \<open>request\<close>, \<open>add_middleware\<close> and \<open>_setup\<close>. The bodies of the
  methods are in the concrete publishers, which are not among the sources at hand.
\<close>

text \<open>
  Modelled from the spec: the error kinds of the publish path (NotReady, Transport,
  Timeout); the source at hand declares none of them.
\<close>

datatype publish_error = NotReady | Transport | Timeout

text \<open>
  Modelled from the spec: the publish command, reduced to the message body and the optional
  correlation identifier; \<open>PublishCommand\<close> is imported by \<open>proto.py\<close> and defined
  elsewhere.
\<close>

record publish_command =
  message_body :: string
  correlation_id :: "string option"

text \<open>
  Modelled from the spec: a call-counting stub producer. The transport is the list of the
  calls made on producers so far, each with the producer it was made on.
\<close>

datatype transport_call = PublishCall publish_command | RequestCall publish_command

type_synonym producer = nat

type_synonym transport = "(producer \<times> transport_call) list"

text \<open>
  Modelled from the spec: a publish-side middleware sees the command before the inner
  call and may short-circuit by not making the inner call (\<open>None\<close>).
\<close>

type_synonym middleware = "publish_command \<Rightarrow> publish_command option"

text \<open>
  Modelled from the spec: the publisher entity, with the three fields that \<open>proto.py\<close>
  declares. A publisher is declared unbound: its producer reference is absent.
\<close>

record publisher =
  broker_middlewares :: "middleware list"
  middlewares :: "middleware list"
  producer :: "producer option"

definition new_publisher :: "middleware list \<Rightarrow> publisher" where
  "new_publisher broker_mws =
     \<lparr>broker_middlewares = broker_mws, middlewares = [], producer = None\<rparr>"

text \<open>
  Modelled from the spec: \<open>add_middleware\<close> appends to the publisher-owned middleware
  sequence; its body is not in \<open>proto.py\<close>.
\<close>

definition add_middleware :: "middleware \<Rightarrow> publisher \<Rightarrow> publisher" where
  "add_middleware mw pub = pub\<lparr>middlewares := middlewares pub @ [mw]\<rparr>"

text \<open>
  Modelled from the spec: \<open>_setup\<close> binds the producer once; after binding the reference
  never changes. Its body is not in \<open>proto.py\<close>.
\<close>

definition publisher_setup :: "producer option \<Rightarrow> publisher \<Rightarrow> publisher" where
  "publisher_setup p pub = (if producer pub = None then pub\<lparr>producer := p\<rparr> else pub)"

text \<open>
  Modelled from the spec: the chain of interceptors, outermost first; the command reaches
  the producer only if no middleware short-circuits.
\<close>

fun run_chain :: "middleware list \<Rightarrow> publish_command \<Rightarrow> publish_command option" where
  "run_chain [] cmd = Some cmd"
| "run_chain (mw # mws) cmd = (case mw cmd of None \<Rightarrow> None | Some cmd' \<Rightarrow> run_chain mws cmd')"

text \<open>
  Modelled from the spec: \<open>_publish\<close> fails with NotReady before the producer is bound
  and makes no transport call then; once bound it wraps the producer call in the
  broker-level, the publisher-level and the call-scoped middlewares, in this order. Its
  body is not in \<open>proto.py\<close>.
\<close>

definition publish_cmd ::
  "publisher \<Rightarrow> publish_command \<Rightarrow> middleware list \<Rightarrow> transport
     \<Rightarrow> (publish_error + unit) \<times> transport" where
  "publish_cmd pub cmd extra_middlewares calls =
     (case producer pub of
        None \<Rightarrow> (Inl NotReady, calls)
      | Some p \<Rightarrow>
          (case run_chain (broker_middlewares pub @ middlewares pub @ extra_middlewares) cmd of
             None \<Rightarrow> (Inr (), calls)
           | Some cmd' \<Rightarrow> (Inr (), calls @ [(p, PublishCall cmd')])))"

text \<open>
  Modelled from the spec: \<open>publish\<close> builds the command from the message and the
  correlation identifier and dispatches it with no call-scoped middlewares. Its body is not
  in \<open>proto.py\<close>.
\<close>

definition publish ::
  "publisher \<Rightarrow> string \<Rightarrow> string option \<Rightarrow> transport \<Rightarrow> (publish_error + unit) \<times> transport" where
  "publish pub message cid calls =
     publish_cmd pub \<lparr>message_body = message, correlation_id = cid\<rparr> [] calls"

text \<open>
  Modelled from the spec: \<open>request\<close> fails with NotReady before the producer is bound
  and makes no transport call then; once bound it builds the command and calls the
  producer's request directly, without the middleware chain. Its body is not in
  \<open>proto.py\<close>.
\<close>

definition request ::
  "publisher \<Rightarrow> string \<Rightarrow> string option \<Rightarrow> transport \<Rightarrow> (publish_error + unit) \<times> transport" where
  "request pub message cid calls =
     (case producer pub of
        None \<Rightarrow> (Inl NotReady, calls)
      | Some p \<Rightarrow>
          (Inr (), calls @ [(p, RequestCall \<lparr>message_body = message, correlation_id = cid\<rparr>)]))"

section \<open>Lemmas on strings\<close>

lemma split_on_not_Nil: "split_on c s \<noteq> []"
  by (induction s) (auto split: list.splits)

lemma split_on_single: "c \<notin> set s \<Longrightarrow> split_on c s = [s]"
  by (induction s) auto

lemma str_replace_char:
  "str_replace [a] new s = concat (map (\<lambda>c. if c = a then new else [c]) s)"
  by (induction s) auto

lemma str_replace_char_char:
  "str_replace [a] [b] s = map (\<lambda>c. if c = a then b else c) s"
  by (induction s) auto

lemma str_replace_char_empty:
  "str_replace [a] [] s = filter (\<lambda>c. c \<noteq> a) s"
  by (induction s) auto

lemma split_on_head:
  "split_on c xs = w # ws \<Longrightarrow> (ws = [] \<and> xs = w) \<or> (\<exists>r. xs = w @ c # r)"
proof (induction xs arbitrary: w ws)
  case Nil
  then show ?case by simp
next
  case (Cons x xs)
  show ?case
  proof (cases "x = c")
    case True
    with Cons.prems show ?thesis by auto
  next
    case False
    obtain v vs where v: "split_on c xs = v # vs"
      using split_on_not_Nil [of c xs] by (cases "split_on c xs") auto
    with Cons.prems False have w: "w = x # v" "ws = vs" by auto
    from Cons.IH [OF v] show ?thesis by (auto simp: w)
  qed
qed

lemma set_join: "set (join sep ws) \<subseteq> set sep \<union> \<Union> (set ` set ws)"
  by (induction sep ws rule: join.induct) auto

lemma of_ascii_space [simp]: "of_ascii '' '' = [32]"
  by (simp add: of_ascii_def)

lemma of_ascii_underscore [simp]: "of_ascii ''_'' = [95]"
  by (simp add: of_ascii_def)

lemma of_ascii_empty [simp]: "of_ascii [] = []"
  by (simp add: of_ascii_def)

lemma to_camelcase_filter:
  "to_camelcase db names =
     filter (\<lambda>c. c \<noteq> 32)
       (do_title db False [] (map (\<lambda>c. if c = 95 then 32 else c) (join [32] names)))"
  by (simp add: to_camelcase_def str_title_def str_replace_char_char str_replace_char_empty)

subsection \<open>The context of a capital sigma ends at a space\<close>

lemma first_after_run:
  "\<not> P x \<Longrightarrow> f x = d \<Longrightarrow>
   (case dropWhile P (a @ x # r) of [] \<Rightarrow> d | c # _ \<Rightarrow> f c) =
   (case dropWhile P a of [] \<Rightarrow> d | c # _ \<Rightarrow> f c)"
  by (induction a) auto

lemma sigma_rest_space:
  assumes "space_plain db"
  shows "handle_capital_sigma db seen (a @ 32 # r) = handle_capital_sigma db seen a"
proof -
  from assms have s: "\<not> case_ignorable db 32" "(\<not> cased db 32) = True"
    by (simp_all add: space_plain_def)
  have "(case dropWhile (case_ignorable db) (a @ 32 # r) of [] \<Rightarrow> True | c # _ \<Rightarrow> \<not> cased db c) =
        (case dropWhile (case_ignorable db) a of [] \<Rightarrow> True | c # _ \<Rightarrow> \<not> cased db c)"
    using s by (rule first_after_run)
  then show ?thesis by (simp add: handle_capital_sigma_def)
qed

lemma sigma_seen_space:
  assumes "space_plain db"
  shows "handle_capital_sigma db (b @ 32 # pre) rest = handle_capital_sigma db b rest"
proof -
  from assms have s: "\<not> case_ignorable db 32" "cased db 32 = False"
    by (simp_all add: space_plain_def)
  have "(case dropWhile (case_ignorable db) (b @ 32 # pre) of [] \<Rightarrow> False | c # _ \<Rightarrow> cased db c) =
        (case dropWhile (case_ignorable db) b of [] \<Rightarrow> False | c # _ \<Rightarrow> cased db c)"
    using s by (rule first_after_run)
  then show ?thesis by (simp add: handle_capital_sigma_def)
qed

lemma lower_rest_space:
  "space_plain db \<Longrightarrow> lower_ucs4 db seen c (a @ 32 # r) = lower_ucs4 db seen c a"
  by (simp add: lower_ucs4_def sigma_rest_space)

lemma lower_seen_space:
  "space_plain db \<Longrightarrow> lower_ucs4 db (b @ 32 # pre) c rest = lower_ucs4 db b c rest"
  by (simp add: lower_ucs4_def sigma_seen_space)

lemma lower_space: "space_plain db \<Longrightarrow> lower_ucs4 db seen 32 rest = [32]"
  by (simp add: lower_ucs4_def space_plain_def)

lemma do_title_seen_space:
  "space_plain db \<Longrightarrow> do_title db p (b @ 32 # pre) s = do_title db p b s"
proof (induction s arbitrary: p b)
  case Nil
  then show ?case by simp
next
  case (Cons c s)
  from Cons.IH [OF Cons.prems, of "cased db c" "c # b"] Cons.prems
  show ?case by (simp add: lower_seen_space)
qed

lemma do_title_words:
  assumes "space_plain db"
  shows "filter (\<lambda>c. c \<noteq> 32) (do_title db p seen s) =
           (case split_on 32 s of
              [] \<Rightarrow> []
            | w # ws \<Rightarrow>
                filter (\<lambda>c. c \<noteq> 32) (do_title db p seen w)
                  @ concat (map (\<lambda>w. filter (\<lambda>c. c \<noteq> 32) (do_title db False [] w)) ws))"
proof (induction s arbitrary: p seen)
  case Nil
  then show ?case by simp
next
  case (Cons x xs)
  obtain w ws where sp: "split_on 32 xs = w # ws"
    using split_on_not_Nil [of 32 xs] by (cases "split_on 32 xs") auto
  show ?case
  proof (cases "x = 32")
    case True
    have chunk: "(if p then lower_ucs4 db seen 32 xs else title_full db 32) = [32]"
      using assms by (simp add: lower_space space_plain_def)
    have "do_title db False (32 # seen) xs = do_title db False [] xs"
      using do_title_seen_space [OF assms, of False "[]" seen xs] by simp
    moreover have "\<not> cased db 32" using assms by (simp add: space_plain_def)
    ultimately have "filter (\<lambda>c. c \<noteq> 32) (do_title db p seen (x # xs)) =
            filter (\<lambda>c. c \<noteq> 32) (do_title db False [] xs)"
      using chunk by (simp add: True)
    also have "\<dots> = filter (\<lambda>c. c \<noteq> 32) (do_title db False [] w)
                  @ concat (map (\<lambda>w. filter (\<lambda>c. c \<noteq> 32) (do_title db False [] w)) ws)"
      using Cons.IH [of False "[]"] by (simp add: sp)
    finally show ?thesis by (simp add: True sp)
  next
    case False
    from split_on_head [OF sp]
    have rest: "lower_ucs4 db seen x xs = lower_ucs4 db seen x w"
      using assms by (auto simp: lower_rest_space)
    have "filter (\<lambda>c. c \<noteq> 32) (do_title db (cased db x) (x # seen) xs) =
            filter (\<lambda>c. c \<noteq> 32) (do_title db (cased db x) (x # seen) w)
              @ concat (map (\<lambda>w. filter (\<lambda>c. c \<noteq> 32) (do_title db False [] w)) ws)"
      using Cons.IH [of "cased db x" "x # seen"] by (simp add: sp)
    then show ?thesis by (simp add: False sp rest)
  qed
qed

subsection \<open>Title case, position by position\<close>

lemma do_title_positions:
  "p = (seen \<noteq> [] \<and> cased db (hd seen)) \<Longrightarrow>
   do_title db p seen s =
     concat (map (title_at db (rev seen @ s)) [length seen..<length seen + length s])"
proof (induction s arbitrary: p seen)
  case Nil
  then show ?case by simp
next
  case (Cons c s)
  let ?full = "rev seen @ c # s"
  have here: "title_at db ?full (length seen) =
                (if p then lower_ucs4 db seen c s else title_full db c)"
  proof (cases seen)
    case Nil
    with Cons.prems show ?thesis by (simp add: title_at_def)
  next
    case (Cons y ys)
    have "?full ! (length seen - 1) = y"
      by (simp add: Cons nth_append)
    with Cons.prems Cons show ?thesis
      by (simp add: title_at_def nth_append)
  qed
  have "do_title db (cased db c) (c # seen) s =
          concat (map (title_at db (rev (c # seen) @ s))
            [length (c # seen)..<length (c # seen) + length s])"
    by (rule Cons.IH) simp
  then have later: "do_title db (cased db c) (c # seen) s =
          concat (map (title_at db ?full) [Suc (length seen)..<Suc (length seen + length s)])"
    by (simp del: upt_Suc)
  have "[length seen..<Suc (length seen + length s)] =
          length seen # [Suc (length seen)..<Suc (length seen + length s)]"
    by (rule upt_conv_Cons) simp
  then show ?case by (simp add: here later del: upt_Suc)
qed

lemma str_title_word: "str_title db w = title_word db w"
  using do_title_positions [of False "[]" db w] by (simp add: str_title_def title_word_def)

lemma camel: "space_plain db \<Longrightarrow> to_camelcase db names = camelcase_by_words db names"
proof -
  assume sp: "space_plain db"
  let ?s = "map (\<lambda>c. if c = 95 then 32 else c) (join [32] names)"
  obtain w ws where ws: "split_on 32 ?s = w # ws"
    using split_on_not_Nil [of 32 ?s] by (cases "split_on 32 ?s") auto
  have "to_camelcase db names = filter (\<lambda>c. c \<noteq> 32) (do_title db False [] ?s)"
    by (rule to_camelcase_filter)
  also have "\<dots> = concat (map (\<lambda>w. filter (\<lambda>c. c \<noteq> 32) (str_title db w)) (w # ws))"
    using do_title_words [OF sp, of False "[]" ?s] by (simp add: ws str_title_def)
  also have "\<dots> = filter (\<lambda>c. c \<noteq> 32) (concat (map (title_word db) (w # ws)))"
    by (simp add: str_title_word filter_concat comp_def)
  finally show ?thesis by (simp add: camelcase_by_words_def ws)
qed

subsection \<open>ASCII text\<close>

lemma do_title_ascii:
  "ascii_cases db \<Longrightarrow> \<forall>c \<in> set s. c < 128 \<Longrightarrow>
   do_title db p seen s = do_title ascii_db p seen s"
proof (induction s arbitrary: p seen)
  case Nil
  then show ?case by simp
next
  case (Cons c s)
  from Cons.prems have c: "c < 128" by simp
  with Cons.prems(1) have same: "cased db c = cased ascii_db c"
      "title_full db c = title_full ascii_db c" "lower_full db c = lower_full ascii_db c"
    by (simp_all add: ascii_cases_def)
  from c have "lower_ucs4 db seen c s = lower_ucs4 ascii_db seen c s"
    by (simp add: lower_ucs4_def same)
  moreover have "do_title db (cased ascii_db c) (c # seen) s =
                 do_title ascii_db (cased ascii_db c) (c # seen) s"
    using Cons.prems by (intro Cons.IH) simp_all
  ultimately show ?case by (simp add: same)
qed

lemma to_camelcase_ascii:
  assumes "ascii_cases db" "\<forall>w \<in> set names. \<forall>c \<in> set w. c < 128"
  shows "to_camelcase db names = to_camelcase ascii_db names"
proof -
  let ?s = "map (\<lambda>c. if c = 95 then 32 else c) (join [32] names)"
  have "\<forall>c \<in> set (join [32] names). c < 128"
    using set_join [of "[32]" names] assms(2) by auto
  then have "\<forall>c \<in> set ?s. c < 128" by auto
  with assms(1) have "do_title db False [] ?s = do_title ascii_db False [] ?s"
    by (rule do_title_ascii)
  then show ?thesis by (simp add: to_camelcase_filter)
qed

lemma ascii_db_cases: "ascii_cases ascii_db"
  by (simp add: ascii_cases_def)

lemma ascii_db_space: "space_plain ascii_db"
  by (simp add: space_plain_def ascii_db_def)

lemma sample_db_space: "space_plain sample_db"
  by (simp add: space_plain_def sample_db_def ascii_db_def)

lemma sample_db_cases: "ascii_cases sample_db"
  by (simp add: ascii_cases_def sample_db_def)

lemma clear_key_map: "clear_key k = map (\<lambda>c. if c = CHR ''/'' then CHR ''.'' else c) k"
  by (simp add: clear_key_def str_replace_char_char)

section \<open>Lemmas on the store and the loop\<close>

lemma title_of_length: "title_of h b = Some t \<Longrightarrow> b < length h"
  by (auto simp: title_of_def getitem_def split: if_splits)

lemma title_of_map_of:
  "title_of h b = Some t \<longleftrightarrow> b < length h \<and> map_of (h ! b) ''title'' = Some (PStr t)"
  by (auto simp: title_of_def getitem_def split: option.splits pyval.splits)

lemma length_setitem [simp]: "length (setitem h a k v) = length h"
  by (simp add: setitem_def)

lemma title_of_append: "b < length h \<Longrightarrow> title_of (h @ g) b = title_of h b"
  by (simp add: title_of_def getitem_def nth_append)

lemma setitem_append: "b < length h \<Longrightarrow> setitem (h @ g) b k v = setitem h b k v @ g"
  by (simp add: setitem_def nth_append list_update_append)

lemma setitem_at_end: "setitem (h @ [d]) (length h) k v = h @ [AList.update k v d]"
  by (simp add: setitem_def)

lemma title_of_setitem_same:
  "b < length h \<Longrightarrow> title_of (setitem h b ''title'' (PStr k)) b = Some k"
  by (simp add: title_of_map_of setitem_def update_conv')

lemma title_of_setitem_other:
  "a \<noteq> b \<Longrightarrow> title_of (setitem h a k v) b = title_of h b"
  by (simp add: title_of_def getitem_def setitem_def)

lemma setitem_same_title:
  "title_of h b = Some t \<Longrightarrow> setitem h b ''title'' (PStr t) = h"
  by (simp add: title_of_map_of setitem_def update_triv)

lemma nth_setitem_other: "a \<noteq> b \<Longrightarrow> setitem h a k v ! b = h ! b"
  by (simp add: setitem_def)

lemma nth_setitem_same: "a < length h \<Longrightarrow> setitem h a k v ! a = AList.update k v (h ! a)"
  by (simp add: setitem_def)

lemma final_title_single:
  "length (split_on CHR '':'' t) \<le> 1 \<Longrightarrow> final_title extra sw n t = t"
  by (simp add: final_title_def Let_def)

lemma loop_step:
  assumes "title_of h b = Some t"
  shows "one_of_loop oo extra sw ((b, n) # ps) h =
           one_of_loop oo extra sw ps
             (setitem (setitem h b ''title'' (PStr (final_title extra sw n t))) oo
                (final_title extra sw n t) (PRef b))"
proof -
  from assms have g: "getitem h b ''title'' = Inr (PStr t)"
    by (auto simp: title_of_def split: sum.splits pyval.splits)
  show ?thesis
  proof (cases "length (split_on CHR '':'' t) > 1")
    case True
    then show ?thesis by (simp add: g final_title_def Let_def)
  next
    case False
    then have "final_title extra sw n t = t" by (simp add: final_title_single)
    with False assms show ?thesis by (simp add: g Let_def setitem_same_title)
  qed
qed

lemma schema_pairs_Cons:
  "schema_pairs h ((b, n) # ps) \<longleftrightarrow> (\<exists>t. title_of h b = Some t) \<and> schema_pairs h ps"
  by (auto simp: schema_pairs_def)

lemma schema_pairs_iff:
  "schema_pairs h ps \<longleftrightarrow> (\<forall>b \<in> fst ` set ps. title_of h b \<noteq> None)"
  by (fastforce simp: schema_pairs_def list_all_iff)

lemma schema_pairs_setitem:
  assumes "schema_pairs h ps" "b < length h"
  shows "schema_pairs (setitem h b ''title'' (PStr k)) ps"
  unfolding schema_pairs_iff
proof
  fix a assume "a \<in> fst ` set ps"
  with assms(1) have "title_of h a \<noteq> None" unfolding schema_pairs_iff by blast
  then show "title_of (setitem h b ''title'' (PStr k)) a \<noteq> None"
    using assms(2) by (cases "a = b") (simp_all add: title_of_setitem_same title_of_setitem_other)
qed

lemma file_entries_Cons:
  "file_entries d ((k, b) # es) = file_entries (AList.update k (PRef b) d) es"
  by (simp add: file_entries_def)

lemma loop_main:
  "schema_pairs h ps \<Longrightarrow>
   one_of_loop (length h) extra sw ps (h @ [d]) =
     (None, retitled extra sw h ps @ [file_entries d (resolved extra sw h ps)])"
proof (induction ps arbitrary: h d)
  case Nil
  then show ?case by (simp add: file_entries_def)
next
  case (Cons p ps)
  obtain b n where p: "p = (b, n)" by (cases p)
  from Cons.prems p obtain t where t: "title_of h b = Some t" and rest: "schema_pairs h ps"
    by (auto simp: schema_pairs_Cons)
  from t have b: "b < length h" by (rule title_of_length)
  let ?k = "final_title extra sw n t"
  let ?h1 = "setitem h b ''title'' (PStr ?k)"
  have sp: "schema_pairs ?h1 ps" using rest b by (rule schema_pairs_setitem)
  have "title_of (h @ [d]) b = Some t"
    using t b by (simp add: title_of_append)
  then have "one_of_loop (length h) extra sw ((b, n) # ps) (h @ [d]) =
          one_of_loop (length h) extra sw ps
            (setitem (setitem (h @ [d]) b ''title'' (PStr ?k)) (length h) ?k (PRef b))"
    by (rule loop_step)
  also have "setitem (setitem (h @ [d]) b ''title'' (PStr ?k)) (length h) ?k (PRef b) =
          ?h1 @ [AList.update ?k (PRef b) d]"
    using b setitem_at_end [of ?h1 d ?k "PRef b"] by (simp add: setitem_append)
  also have "one_of_loop (length h) extra sw ps (?h1 @ [AList.update ?k (PRef b) d]) =
          one_of_loop (length ?h1) extra sw ps (?h1 @ [AList.update ?k (PRef b) d])"
    by simp
  also have "\<dots> = (None, retitled extra sw ?h1 ps
                      @ [file_entries (AList.update ?k (PRef b) d) (resolved extra sw ?h1 ps)])"
    using sp by (rule Cons.IH)
  finally show ?case by (simp add: p t file_entries_Cons Let_def)
qed

lemma length_retitled [simp]: "length (retitled extra sw h ps) = length h"
  by (induction ps arbitrary: h) (auto split: option.splits)

lemma resolve_payloads_many:
  assumes "schema_pairs h ps" "length ps > 1"
  shows "resolve_payloads ps extra sw h =
           (Inr (Suc (length h)),
            retitled extra sw h ps
              @ [file_entries [] (resolved extra sw h ps), [(''oneOf'', PRef (length h))]])"
  using assms by (simp add: resolve_payloads_def alloc_def loop_main)


subsection \<open>retitled and resolved\<close>

lemma nth_retitled_other:
  "a \<notin> fst ` set ps \<Longrightarrow> retitled extra sw h ps ! a = h ! a"
  by (induction ps arbitrary: h) (auto simp: nth_setitem_other split: option.splits)

lemma map_snd_resolved:
  "schema_pairs h ps \<Longrightarrow> map snd (resolved extra sw h ps) = map fst ps"
proof (induction ps arbitrary: h)
  case Nil
  then show ?case by simp
next
  case (Cons p ps)
  obtain b n where p: "p = (b, n)" by (cases p)
  from Cons.prems p obtain t where t: "title_of h b = Some t" and rest: "schema_pairs h ps"
    by (auto simp: schema_pairs_Cons)
  have "schema_pairs (setitem h b ''title'' (PStr (final_title extra sw n t))) ps"
    using rest title_of_length [OF t] by (rule schema_pairs_setitem)
  then show ?case by (simp add: p t Let_def Cons.IH)
qed

lemma not_rewritten_final:
  "\<not> rewritten h b \<Longrightarrow> title_of h b = Some t \<Longrightarrow> final_title extra sw n t = t"
  by (simp add: rewritten_def final_title_single)

lemma rewritten_once_Cons:
  "rewritten_once h (p # ps) \<Longrightarrow> rewritten_once h ps"
  by (auto simp: rewritten_once_def split: if_splits)

lemma rewritten_twice:
  assumes "rewritten_once h ((b, n) # ps)" "b \<in> fst ` set ps"
  shows "\<not> rewritten h b"
proof
  assume r: "rewritten h b"
  from assms(2) obtain n' where "(b, n') \<in> set ps" by auto
  with r have "b \<in> fst ` set (filter (\<lambda>(body, handler_name). rewritten h body) ps)"
    by force
  with assms(1) r show False by (simp add: rewritten_once_def)
qed

lemma rewritten_once_same_name:
  assumes "rewritten_once h ps" "(b, n) \<in> set ps" "(b, n') \<in> set ps" "rewritten h b"
  shows "n = n'"
proof -
  let ?f = "filter (\<lambda>(body, handler_name). rewritten h body) ps"
  from assms have "distinct (map fst ?f)" "(b, n) \<in> set ?f" "(b, n') \<in> set ?f"
    by (auto simp: rewritten_once_def)
  then show ?thesis by (rule eq_key_imp_eq_value)
qed

lemma step_keeps_later:
  assumes "rewritten_once h ((b, n) # ps)" "title_of h b = Some t" "a \<in> fst ` set ps"
  shows "setitem h b ''title'' (PStr (final_title extra sw n t)) = h \<or> a \<noteq> b"
proof (cases "a = b")
  case True
  with assms have "\<not> rewritten h b" by (auto dest: rewritten_twice)
  from this assms(2) have "final_title extra sw n t = t" by (rule not_rewritten_final)
  with assms(2) show ?thesis by (simp add: setitem_same_title)
next
  case False
  then show ?thesis by simp
qed

lemma step_nth_later:
  assumes "rewritten_once h ((b, n) # ps)" "title_of h b = Some t" "a \<in> fst ` set ps"
  shows "setitem h b ''title'' (PStr (final_title extra sw n t)) ! a = h ! a"
  using step_keeps_later [OF assms, of extra sw] by (auto simp: nth_setitem_other)

lemma step_title_later:
  assumes "rewritten_once h ((b, n) # ps)" "title_of h b = Some t" "a \<in> fst ` set ps"
  shows "title_of (setitem h b ''title'' (PStr (final_title extra sw n t))) a = title_of h a"
  using step_keeps_later [OF assms, of extra sw] by (auto simp: title_of_setitem_other)

lemma step_rewritten_once:
  assumes "rewritten_once h ((b, n) # ps)" "title_of h b = Some t"
  shows "rewritten_once (setitem h b ''title'' (PStr (final_title extra sw n t))) ps"
proof -
  let ?h1 = "setitem h b ''title'' (PStr (final_title extra sw n t))"
  have "filter (\<lambda>(body, handler_name). rewritten ?h1 body) ps =
        filter (\<lambda>(body, handler_name). rewritten h body) ps"
  proof (rule filter_cong [OF refl])
    fix x assume x: "x \<in> set ps"
    then have "fst x \<in> fst ` set ps" by simp
    with assms have "title_of ?h1 (fst x) = title_of h (fst x)" by (rule step_title_later)
    then show "(case x of (body, handler_name) \<Rightarrow> rewritten ?h1 body) =
               (case x of (body, handler_name) \<Rightarrow> rewritten h body)"
      by (cases x) (simp add: rewritten_def)
  qed
  with rewritten_once_Cons [OF assms(1)] show ?thesis by (simp add: rewritten_once_def)
qed

lemma resolved_once:
  "schema_pairs h ps \<Longrightarrow> rewritten_once h ps \<Longrightarrow>
   resolved extra sw h ps =
     map (\<lambda>(b, n). (final_title extra sw n (the (title_of h b)), b)) ps"
proof (induction ps arbitrary: h)
  case Nil
  then show ?case by simp
next
  case (Cons p ps)
  obtain b n where p: "p = (b, n)" by (cases p)
  from Cons.prems p obtain t where t: "title_of h b = Some t" and rest: "schema_pairs h ps"
    by (auto simp: schema_pairs_Cons)
  let ?h1 = "setitem h b ''title'' (PStr (final_title extra sw n t))"
  have once: "rewritten_once h ((b, n) # ps)" using Cons.prems p by simp
  have sp: "schema_pairs ?h1 ps"
    using rest title_of_length [OF t] by (rule schema_pairs_setitem)
  have ro: "rewritten_once ?h1 ps" using once t by (rule step_rewritten_once)
  have "resolved extra sw ?h1 ps =
          map (\<lambda>(b, n). (final_title extra sw n (the (title_of ?h1 b)), b)) ps"
    using sp ro by (rule Cons.IH)
  also have "\<dots> = map (\<lambda>(b, n). (final_title extra sw n (the (title_of h b)), b)) ps"
  proof (rule map_cong [OF refl])
    fix x assume "x \<in> set ps"
    then have "fst x \<in> fst ` set ps" by simp
    with once t have "title_of ?h1 (fst x) = title_of h (fst x)" by (rule step_title_later)
    then show "(case x of (b, n) \<Rightarrow> (final_title extra sw n (the (title_of ?h1 b)), b)) =
               (case x of (b, n) \<Rightarrow> (final_title extra sw n (the (title_of h b)), b))"
      by (cases x) simp
  qed
  finally show ?case by (simp add: p t Let_def)
qed

lemma nth_retitled_once:
  "schema_pairs h ps \<Longrightarrow> rewritten_once h ps \<Longrightarrow> (b, n) \<in> set ps \<Longrightarrow>
   retitled extra sw h ps ! b =
     AList.update ''title'' (PStr (final_title extra sw n (the (title_of h b)))) (h ! b)"
proof (induction ps arbitrary: h n)
  case Nil
  then show ?case by simp
next
  case (Cons p ps)
  obtain b0 n0 where p: "p = (b0, n0)" by (cases p)
  from Cons.prems p obtain t where t: "title_of h b0 = Some t" and rest: "schema_pairs h ps"
    by (auto simp: schema_pairs_Cons)
  let ?h1 = "setitem h b0 ''title'' (PStr (final_title extra sw n0 t))"
  have once: "rewritten_once h ((b0, n0) # ps)" using Cons.prems p by simp
  have sp: "schema_pairs ?h1 ps"
    using rest title_of_length [OF t] by (rule schema_pairs_setitem)
  have ro: "rewritten_once ?h1 ps" using once t by (rule step_rewritten_once)
  have unfold: "retitled extra sw h (p # ps) = retitled extra sw ?h1 ps"
    by (simp add: p t)
  show ?case
  proof (cases "b \<in> fst ` set ps")
    case True
    then obtain n' where n': "(b, n') \<in> set ps" by auto
    have "retitled extra sw ?h1 ps ! b =
            AList.update ''title'' (PStr (final_title extra sw n' (the (title_of ?h1 b)))) (?h1 ! b)"
      using sp ro n' by (rule Cons.IH)
    moreover have "title_of ?h1 b = title_of h b" using once t True by (rule step_title_later)
    moreover have "?h1 ! b = h ! b" using once t True by (rule step_nth_later)
    moreover have "final_title extra sw n' (the (title_of h b)) =
                   final_title extra sw n (the (title_of h b))"
    proof (cases "rewritten h b")
      case True
      have "(b, n') \<in> set (p # ps)" using n' by simp
      with Cons.prems(2,3) True have "n = n'" by (blast intro: rewritten_once_same_name)
      then show ?thesis by simp
    next
      case False
      from Cons.prems(1,3) obtain tb where tb: "title_of h b = Some tb"
        unfolding schema_pairs_iff by force
      from False tb show ?thesis by (simp add: not_rewritten_final)
    qed
    ultimately show ?thesis by (simp add: unfold)
  next
    case False
    with Cons.prems(3) p have eq: "b = b0" "n = n0" by force+
    from False have "retitled extra sw ?h1 ps ! b = ?h1 ! b" by (rule nth_retitled_other)
    then show ?thesis
      using title_of_length [OF t] by (simp add: unfold eq t nth_setitem_same)
  qed
qed

subsection \<open>file_entries\<close>

lemma map_of_file_entries:
  "map_of (file_entries d es) k =
     (case map_of (rev es) k of None \<Rightarrow> map_of d k | Some b \<Rightarrow> Some (PRef b))"
proof (induction es arbitrary: d)
  case Nil
  then show ?case by (simp add: file_entries_def)
next
  case (Cons e es)
  obtain k' b where e: "e = (k', b)" by (cases e)
  show ?case
    by (simp add: e file_entries_Cons Cons.IH update_conv' map_add_def split: option.splits)
qed

lemma keys_file_entries:
  "fst ` set (file_entries d es) = fst ` set d \<union> fst ` set es"
proof (induction es arbitrary: d)
  case Nil
  then show ?case by (simp add: file_entries_def)
next
  case (Cons e es)
  obtain k' b where e: "e = (k', b)" by (cases e)
  show ?case by (simp add: e file_entries_Cons Cons.IH dom_update)
qed

lemma set_update_subset: "set (AList.update k v al) \<subseteq> insert (k, v) (set al)"
  by (induction al) auto

lemma values_file_entries:
  "(k, v) \<in> set (file_entries d es) \<Longrightarrow>
   (k, v) \<in> set d \<or> (\<exists>b. v = PRef b \<and> (k, b) \<in> set es)"
proof (induction es arbitrary: d)
  case Nil
  then show ?case by (simp add: file_entries_def)
next
  case (Cons e es)
  obtain k' b where e: "e = (k', b)" by (cases e)
  from Cons.prems have "(k, v) \<in> set (file_entries (AList.update k' (PRef b) d) es)"
    by (simp add: e file_entries_Cons)
  then have "(k, v) \<in> set (AList.update k' (PRef b) d) \<or> (\<exists>b. v = PRef b \<and> (k, b) \<in> set es)"
    by (rule Cons.IH)
  then show ?case using set_update_subset [of k' "PRef b" d] by (auto simp: e)
qed

lemma distinct_file_entries:
  "distinct (map fst d) \<Longrightarrow> distinct (map fst (file_entries d es))"
proof (induction es arbitrary: d)
  case Nil
  then show ?case by (simp add: file_entries_def)
next
  case (Cons e es)
  obtain k' b where e: "e = (k', b)" by (cases e)
  show ?case using Cons.prems by (simp add: e file_entries_Cons Cons.IH distinct_update)
qed

lemma last_entry_wins:
  assumes "j < length es" "\<forall>m. j < m \<and> m < length es \<longrightarrow> fst (es ! m) \<noteq> fst (es ! j)"
  shows "map_of (file_entries d es) (fst (es ! j)) = Some (PRef (snd (es ! j)))"
proof -
  let ?k = "fst (es ! j)"
  have es: "es = take j es @ es ! j # drop (Suc j) es"
    using assms(1) by (rule id_take_nth_drop)
  have "?k \<notin> fst ` set (drop (Suc j) es)"
  proof
    assume "?k \<in> fst ` set (drop (Suc j) es)"
    then obtain i where i: "i < length (drop (Suc j) es)" "fst (drop (Suc j) es ! i) = ?k"
      by (auto simp: in_set_conv_nth)
    then have "Suc j + i < length es" "fst (es ! (Suc j + i)) = ?k" by auto
    with assms(2) show False by (metis less_add_Suc1 add_Suc)
  qed
  then have none: "map_of (rev (drop (Suc j) es)) ?k = None"
    by (simp add: map_of_eq_None_iff)
  have "map_of (rev es) ?k = map_of (rev (drop (Suc j) es) @ es ! j # rev (take j es)) ?k"
    by (subst es) simp
  also have "\<dots> = Some (snd (es ! j))"
    using none by (cases "es ! j") (simp add: map_add_def)
  finally show ?thesis by (simp add: map_of_file_entries)
qed


subsection \<open>Reading the result\<close>

lemma dict_at_append_end:
  "length h' = n \<Longrightarrow> dict_at (h' @ [d, e]) n = Some d \<and> dict_at (h' @ [d, e]) (Suc n) = Some e"
  by (auto simp: dict_at_def nth_append)

lemma title_of_schema_pairs:
  "schema_pairs h ps \<Longrightarrow> (b, n) \<in> set ps \<Longrightarrow> \<exists>t. title_of h b = Some t"
  unfolding schema_pairs_iff by force

lemma spec_title_final:
  assumes "0 \<le> sw" "length (split_on CHR '':'' t) > 1"
  shows "final_title extra sw n t = spec_title extra sw n t"
  using assms by (simp add: final_title_def spec_title_def slice_from_def Let_def)

section \<open>The name helpers\<close>

text \<open>
  C7: \<open>to_camelcase\<close> joins its name arguments with spaces, replaces underscores with
  spaces, title-cases each word and strips all spaces. This holds for every Unicode
  character database in which the space is plain: the result is the words between the
  spaces, each with its first character and every character after an uncased one in
  title case and every character after a cased one lowered, without the spaces. With
  the case tables of ASCII, in particular \<open>to_camelcase("order_created") =
  "OrderCreated"\<close> and \<open>to_camelcase("a", "b_c") = "ABC"\<close>; capitals inside a word
  are lowered (\<open>"ABC_def", "GHI"\<close> gives \<open>"AbcDefGhi"\<close>) and a digit starts a new
  word (\<open>"on_v2_msg"\<close> gives \<open>"OnV2Msg"\<close>).
\<close>

theorem to_camelcase_words:
  "(space_plain db \<longrightarrow> to_camelcase db names = camelcase_by_words db names)
   \<and> (ascii_cases db \<longrightarrow>
        to_camelcase db [of_ascii ''order_created''] = of_ascii ''OrderCreated''
        \<and> to_camelcase db [of_ascii ''a'', of_ascii ''b_c''] = of_ascii ''ABC''
        \<and> to_camelcase db [of_ascii ''ABC_def'', of_ascii ''GHI''] = of_ascii ''AbcDefGhi''
        \<and> to_camelcase db [of_ascii ''on_v2_msg''] = of_ascii ''OnV2Msg'')"
proof (intro conjI impI)
  assume "space_plain db"
  then show "to_camelcase db names = camelcase_by_words db names" by (rule camel)
next
  assume a: "ascii_cases db"
  have "to_camelcase ascii_db [of_ascii ''order_created''] = of_ascii ''OrderCreated''"
    by code_simp
  moreover have "\<forall>w \<in> set [of_ascii ''order_created'']. \<forall>c \<in> set w. c < 128"
    by code_simp
  ultimately show "to_camelcase db [of_ascii ''order_created''] = of_ascii ''OrderCreated''"
    using to_camelcase_ascii [OF a] by simp
next
  assume a: "ascii_cases db"
  have "to_camelcase ascii_db [of_ascii ''a'', of_ascii ''b_c''] = of_ascii ''ABC''"
    by code_simp
  moreover have "\<forall>w \<in> set [of_ascii ''a'', of_ascii ''b_c'']. \<forall>c \<in> set w. c < 128"
    by code_simp
  ultimately show "to_camelcase db [of_ascii ''a'', of_ascii ''b_c''] = of_ascii ''ABC''"
    using to_camelcase_ascii [OF a] by simp
next
  assume a: "ascii_cases db"
  have "to_camelcase ascii_db [of_ascii ''ABC_def'', of_ascii ''GHI''] = of_ascii ''AbcDefGhi''"
    by code_simp
  moreover have "\<forall>w \<in> set [of_ascii ''ABC_def'', of_ascii ''GHI'']. \<forall>c \<in> set w. c < 128"
    by code_simp
  ultimately show "to_camelcase db [of_ascii ''ABC_def'', of_ascii ''GHI''] = of_ascii ''AbcDefGhi''"
    using to_camelcase_ascii [OF a] by simp
next
  assume a: "ascii_cases db"
  have "to_camelcase ascii_db [of_ascii ''on_v2_msg''] = of_ascii ''OnV2Msg''"
    by code_simp
  moreover have "\<forall>w \<in> set [of_ascii ''on_v2_msg'']. \<forall>c \<in> set w. c < 128"
    by code_simp
  ultimately show "to_camelcase db [of_ascii ''on_v2_msg''] = of_ascii ''OnV2Msg''"
    using to_camelcase_ascii [OF a] by simp
qed

theorem to_camelcase_words_witness:
  "space_plain sample_db
   \<and> ascii_cases sample_db
   \<and> to_camelcase sample_db [of_ascii ''hTTP_server'', of_ascii ''v2''] =
       camelcase_by_words sample_db [of_ascii ''hTTP_server'', of_ascii ''v2'']
   \<and> to_camelcase sample_db [of_ascii ''hTTP_server'', of_ascii ''v2''] = of_ascii ''HttpServerV2''
   \<and> to_camelcase sample_db [of_ascii ''order_created''] = of_ascii ''OrderCreated''
   \<and> to_camelcase sample_db [of_ascii ''a'', of_ascii ''b_c''] = of_ascii ''ABC''
   \<and> to_camelcase sample_db [[233, 99, 111, 108, 101, 95, 224]] = [201, 99, 111, 108, 101, 192]
   \<and> to_camelcase sample_db [[115, 116, 114, 97, 223, 101], [223, 120]] =
       [83, 116, 114, 97, 223, 101, 83, 115, 120]
   \<and> to_camelcase sample_db [[913, 931, 95, 913, 931, 913]] = [913, 962, 913, 963, 945]
   \<and> to_camelcase sample_db [of_ascii ''it's_a''] = of_ascii ''It'SA''"
proof -
  have sp: "space_plain sample_db" by (rule sample_db_space)
  have ac: "ascii_cases sample_db" by (rule sample_db_cases)
  note w = to_camelcase_words [of sample_db]
  have 1: "to_camelcase sample_db [of_ascii ''hTTP_server'', of_ascii ''v2''] =
           camelcase_by_words sample_db [of_ascii ''hTTP_server'', of_ascii ''v2'']"
    using w [of "[of_ascii ''hTTP_server'', of_ascii ''v2'']"] sp by blast
  have 2: "to_camelcase sample_db [of_ascii ''order_created''] = of_ascii ''OrderCreated''"
      "to_camelcase sample_db [of_ascii ''a'', of_ascii ''b_c''] = of_ascii ''ABC''"
    using w [of "[]"] ac by blast+
  have 3: "to_camelcase sample_db [of_ascii ''hTTP_server'', of_ascii ''v2''] = of_ascii ''HttpServerV2''"
    by code_simp
  have 4: "to_camelcase sample_db [[233, 99, 111, 108, 101, 95, 224]] = [201, 99, 111, 108, 101, 192]"
    by code_simp
  have 5: "to_camelcase sample_db [[115, 116, 114, 97, 223, 101], [223, 120]] =
             [83, 116, 114, 97, 223, 101, 83, 115, 120]"
    by code_simp
  have 6: "to_camelcase sample_db [[913, 931, 95, 913, 931, 913]] = [913, 962, 913, 963, 945]"
    by code_simp
  have 7: "to_camelcase sample_db [of_ascii ''it's_a''] = of_ascii ''It'SA''"
    by code_simp
  from sp ac 1 2 3 4 5 6 7 show ?thesis by blast
qed

text \<open>
  C8: \<open>clear_key\<close> replaces every "/" of its input with ".", so its result never
  contains "/"; in particular \<open>clear_key("a/b/c") = "a.b.c"\<close>.
\<close>

theorem clear_key_no_slash:
  "clear_key key = map (\<lambda>c. if c = CHR ''/'' then CHR ''.'' else c) key
   \<and> CHR ''/'' \<notin> set (clear_key key)
   \<and> clear_key ''a/b/c'' = ''a.b.c''"
proof -
  have "clear_key ''a/b/c'' = ''a.b.c''" by code_simp
  moreover have "CHR ''/'' \<notin> set (clear_key key)" by (auto simp: clear_key_map)
  ultimately show ?thesis by (simp add: clear_key_map)
qed

text \<open>
  C10: \<open>clear_key\<close> is idempotent: its output has no "/" left to replace.
\<close>

theorem clear_key_idempotent: "clear_key (clear_key k) = clear_key k"
proof -
  have "CHR ''/'' \<notin> set (clear_key k)" by (auto simp: clear_key_map)
  then have "map (\<lambda>c. if c = CHR ''/'' then CHR ''.'' else c) (clear_key k) = clear_key k"
    by (intro map_idI) auto
  then show ?thesis by (simp add: clear_key_map)
qed

section \<open>The payloads\<close>

text \<open>
  C3: for a single pair, whatever the title and whatever \<open>extra\<close> and
  \<open>served_words\<close>, \<open>resolve_payloads\<close> returns the schema object of the pair, and
  the store is the one it was called with: no title is rewritten and no object is changed.
\<close>

theorem resolve_payloads_single:
  "resolve_payloads [(schema, handler_name)] extra served_words h = (Inr schema, h)"
  by (simp add: resolve_payloads_def)

text \<open>
  C5: for two pairs whose schemas carry distinct titles without ":",
  \<open>resolve_payloads\<close> returns a new dictionary \<open>{"oneOf": {title1: schema1, title2:
  schema2}}\<close> with the two entries in the order of the input, and every object that was
  in the store before the call, the two schemas among them, is as it was.
\<close>

theorem resolve_payloads_two_plain:
  assumes "title_of h schema1 = Some title1" "title_of h schema2 = Some title2"
    and "CHR '':'' \<notin> set title1" "CHR '':'' \<notin> set title2" "title1 \<noteq> title2"
  shows "resolve_payloads [(schema1, name1), (schema2, name2)] extra served_words h =
           (Inr (Suc (length h)),
            h @ [[(title1, PRef schema1), (title2, PRef schema2)],
                 [(''oneOf'', PRef (length h))]])"
proof -
  let ?ps = "[(schema1, name1), (schema2, name2)]"
  have f1: "final_title extra served_words name1 title1 = title1"
    using assms(3) by (simp add: final_title_single split_on_single)
  have f2: "final_title extra served_words name2 title2 = title2"
    using assms(4) by (simp add: final_title_single split_on_single)
  have sp: "schema_pairs h ?ps" using assms(1,2) by (simp add: schema_pairs_def)
  have r: "retitled extra served_words h ?ps = h"
    using assms(1,2) by (simp add: f1 f2 setitem_same_title)
  have e: "resolved extra served_words h ?ps = [(title1, schema1), (title2, schema2)]"
    using assms(1,2) by (simp add: f1 f2 setitem_same_title Let_def)
  have "file_entries [] [(title1, schema1), (title2, schema2)] =
          [(title1, PRef schema1), (title2, PRef schema2)]"
    using assms(5) by (simp add: file_entries_def)
  with resolve_payloads_many [OF sp, of extra served_words] r e show ?thesis by simp
qed

theorem resolve_payloads_two_plain_witness:
  "title_of [[(''title'', PStr ''User''), (''type'', PStr ''object'')], [(''title'', PStr ''Order'')]] 0 = Some ''User''
   \<and> title_of [[(''title'', PStr ''User''), (''type'', PStr ''object'')], [(''title'', PStr ''Order'')]] 1 = Some ''Order''
   \<and> CHR '':'' \<notin> set ''User'' \<and> CHR '':'' \<notin> set ''Order'' \<and> ''User'' \<noteq> ''Order''
   \<and> resolve_payloads [(0, ''on_user''), (1, ''on_order'')] ''E'' 1
        [[(''title'', PStr ''User''), (''type'', PStr ''object'')], [(''title'', PStr ''Order'')]] =
      (Inr 3,
       [[(''title'', PStr ''User''), (''type'', PStr ''object'')], [(''title'', PStr ''Order'')],
        [(''User'', PRef 0), (''Order'', PRef 1)], [(''oneOf'', PRef 2)]])"
proof -
  let ?h = "[[(''title'', PStr ''User''), (''type'', PStr ''object'')], [(''title'', PStr ''Order'')]]"
  have a: "title_of ?h 0 = Some ''User''" by code_simp
  have b: "title_of ?h 1 = Some ''Order''" by code_simp
  have c: "CHR '':'' \<notin> set ''User''" by simp
  have d: "CHR '':'' \<notin> set ''Order''" by simp
  have e: "''User'' \<noteq> ''Order''" by simp
  show ?thesis
    using a b c d e resolve_payloads_two_plain [OF a b c d e, of "''on_user''" "''on_order''" "''E''" 1]
    by simp
qed

text \<open>
  C2: the shape of the result follows the length of the list. For no pair it is a new
  empty dictionary. For one pair it is the schema object of the pair. For two or more
  schema pairs it is a new dictionary whose only key is "oneOf", bound to a new
  dictionary whose keys are the titles the pairs resolve to and whose values are schema
  objects of the list.
\<close>

theorem resolve_payloads_shapes:
  "(payloads = [] \<longrightarrow>
      resolve_payloads payloads extra served_words h = (Inr (length h), h @ [[]]))
   \<and> (\<forall>schema handler_name. payloads = [(schema, handler_name)] \<longrightarrow>
      resolve_payloads payloads extra served_words h = (Inr schema, h))
   \<and> (length payloads \<ge> 2 \<and> schema_pairs h payloads \<longrightarrow>
      (\<exists>h' one_of.
         resolve_payloads payloads extra served_words h = (Inr (Suc (length h)), h')
         \<and> dict_at h' (Suc (length h)) = Some [(''oneOf'', PRef (length h))]
         \<and> dict_at h' (length h) = Some one_of
         \<and> fst ` set one_of = fst ` set (resolved extra served_words h payloads)
         \<and> (\<forall>(k, v) \<in> set one_of. \<exists>b \<in> fst ` set payloads. v = PRef b)))"
proof (intro conjI impI allI)
  assume "payloads = []"
  then show "resolve_payloads payloads extra served_words h = (Inr (length h), h @ [[]])"
    by (simp add: resolve_payloads_def alloc_def)
next
  fix schema handler_name
  assume "payloads = [(schema, handler_name)]"
  then show "resolve_payloads payloads extra served_words h = (Inr schema, h)"
    by (simp add: resolve_payloads_def)
next
  assume a: "length payloads \<ge> 2 \<and> schema_pairs h payloads"
  let ?es = "resolved extra served_words h payloads"
  let ?d = "file_entries [] ?es"
  let ?h' = "retitled extra served_words h payloads @ [?d, [(''oneOf'', PRef (length h))]]"
  from a have r: "resolve_payloads payloads extra served_words h = (Inr (Suc (length h)), ?h')"
    by (simp add: resolve_payloads_many)
  have at: "dict_at ?h' (length h) = Some ?d"
      "dict_at ?h' (Suc (length h)) = Some [(''oneOf'', PRef (length h))]"
    using dict_at_append_end [of "retitled extra served_words h payloads" "length h"] by simp_all
  have keys: "fst ` set ?d = fst ` set ?es" by (simp add: keys_file_entries)
  have vals: "\<forall>(k, v) \<in> set ?d. \<exists>b \<in> fst ` set payloads. v = PRef b"
  proof (clarify)
    fix k v assume "(k, v) \<in> set ?d"
    then obtain b where b: "v = PRef b" "(k, b) \<in> set ?es"
      using values_file_entries [of k v "[]" ?es] by auto
    then have "b \<in> set (map snd ?es)" by force
    with a have "b \<in> fst ` set payloads" by (simp add: map_snd_resolved)
    with b show "\<exists>b \<in> fst ` set payloads. v = PRef b" by blast
  qed
  from r at keys vals
  show "\<exists>h' one_of.
         resolve_payloads payloads extra served_words h = (Inr (Suc (length h)), h')
         \<and> dict_at h' (Suc (length h)) = Some [(''oneOf'', PRef (length h))]
         \<and> dict_at h' (length h) = Some one_of
         \<and> fst ` set one_of = fst ` set (resolved extra served_words h payloads)
         \<and> (\<forall>(k, v) \<in> set one_of. \<exists>b \<in> fst ` set payloads. v = PRef b)"
    by blast
qed

theorem resolve_payloads_shapes_witness:
  "resolve_payloads [] ''E'' 1 [[(''title'', PStr ''A:B:C'')], [(''title'', PStr ''X'')]] =
     (Inr 2, [[(''title'', PStr ''A:B:C'')], [(''title'', PStr ''X'')], []])
   \<and> resolve_payloads [(0, ''h'')] ''E'' 1 [[(''title'', PStr ''A:B:C'')], [(''title'', PStr ''X'')]] =
     (Inr 0, [[(''title'', PStr ''A:B:C'')], [(''title'', PStr ''X'')]])
   \<and> length [(0::nat, ''h''), (1, ''g'')] \<ge> 2
   \<and> schema_pairs [[(''title'', PStr ''A:B:C'')], [(''title'', PStr ''X'')]] [(0, ''h''), (1, ''g'')]
   \<and> fst (resolve_payloads [(0, ''h''), (1, ''g'')] ''E'' 1
             [[(''title'', PStr ''A:B:C'')], [(''title'', PStr ''X'')]]) = Inr 3
   \<and> dict_at (snd (resolve_payloads [(0, ''h''), (1, ''g'')] ''E'' 1
             [[(''title'', PStr ''A:B:C'')], [(''title'', PStr ''X'')]])) 3 =
       Some [(''oneOf'', PRef 2)]
   \<and> dict_at (snd (resolve_payloads [(0, ''h''), (1, ''g'')] ''E'' 1
             [[(''title'', PStr ''A:B:C'')], [(''title'', PStr ''X'')]])) 2 =
       Some [(''h:E:B:C'', PRef 0), (''X'', PRef 1)]"
proof -
  let ?h = "[[(''title'', PStr ''A:B:C'')], [(''title'', PStr ''X'')]]"
  let ?ps = "[(0::nat, ''h''), (1, ''g'')]"
  have len: "length ?ps \<ge> 2" by simp
  have sp: "schema_pairs ?h ?ps" by code_simp
  have none: "resolve_payloads [] ''E'' 1 ?h = (Inr (length ?h), ?h @ [[]])"
    using resolve_payloads_shapes [of "[]" "''E''" 1 ?h] by simp
  have one: "resolve_payloads [(0, ''h'')] ''E'' 1 ?h = (Inr 0, ?h)"
    using resolve_payloads_shapes [of "[(0, ''h'')]" "''E''" 1 ?h] by simp
  from resolve_payloads_shapes [of ?ps "''E''" 1 ?h] len sp
  obtain h' one_of where
    many: "resolve_payloads ?ps ''E'' 1 ?h = (Inr (Suc (length ?h)), h')"
      "dict_at h' (Suc (length ?h)) = Some [(''oneOf'', PRef (length ?h))]"
      "dict_at h' (length ?h) = Some one_of"
    by blast
  have ev: "dict_at (snd (resolve_payloads ?ps ''E'' 1 ?h)) 2 =
              Some [(''h:E:B:C'', PRef 0), (''X'', PRef 1)]"
    by code_simp
  from none one many ev len sp show ?thesis by (simp add: numeral_2_eq_2 numeral_3_eq_3)
qed

text \<open>
  C4: for two or more schema pairs the call raises no error, also when entries resolve
  to the same title, and the "oneOf" mapping binds a title that several entries resolve
  to to the schema of the latest of them in input order. When no rewritten schema object
  occurs twice, the title an entry resolves to is computed from the title its schema had
  before the call.
\<close>

theorem collisions_last_write_wins:
  assumes "length payloads \<ge> 2" "schema_pairs h payloads"
  shows "\<exists>h' one_of.
           resolve_payloads payloads extra served_words h = (Inr (Suc (length h)), h')
           \<and> dict_at h' (Suc (length h)) = Some [(''oneOf'', PRef (length h))]
           \<and> dict_at h' (length h) = Some one_of
           \<and> (\<forall>i j. i < j \<and> j < length payloads
                 \<and> resolved_title extra served_words h payloads i =
                    resolved_title extra served_words h payloads j
                 \<and> (\<forall>m. j < m \<and> m < length payloads \<longrightarrow>
                       resolved_title extra served_words h payloads m \<noteq>
                       resolved_title extra served_words h payloads j)
               \<longrightarrow> map_of one_of (resolved_title extra served_words h payloads j) =
                     Some (PRef (fst (payloads ! j))))
           \<and> (rewritten_once h payloads \<longrightarrow>
                (\<forall>j < length payloads.
                   resolved_title extra served_words h payloads j =
                   final_title extra served_words (snd (payloads ! j))
                     (the (title_of h (fst (payloads ! j))))))"
proof -
  let ?es = "resolved extra served_words h payloads"
  let ?d = "file_entries [] ?es"
  let ?r = "retitled extra served_words h payloads"
  let ?h' = "?r @ [?d, [(''oneOf'', PRef (length h))]]"
  from assms have r: "resolve_payloads payloads extra served_words h = (Inr (Suc (length h)), ?h')"
    by (simp add: resolve_payloads_many)
  have at: "dict_at ?h' (length h) = Some ?d"
      "dict_at ?h' (Suc (length h)) = Some [(''oneOf'', PRef (length h))]"
    using dict_at_append_end [of ?r "length h"] by simp_all
  have snds: "map snd ?es = map fst payloads" using assms(2) by (rule map_snd_resolved)
  then have len: "length ?es = length payloads" by (metis length_map)
  have win: "map_of ?d (resolved_title extra served_words h payloads j) = Some (PRef (fst (payloads ! j)))"
    if "j < length payloads"
      and "\<forall>m. j < m \<and> m < length payloads \<longrightarrow>
             resolved_title extra served_words h payloads m \<noteq>
             resolved_title extra served_words h payloads j" for j
  proof -
    from that(1) len have j: "j < length ?es" by simp
    from that(2) len have "\<forall>m. j < m \<and> m < length ?es \<longrightarrow> fst (?es ! m) \<noteq> fst (?es ! j)"
      by (simp add: resolved_title_def)
    with j have "map_of ?d (fst (?es ! j)) = Some (PRef (snd (?es ! j)))"
      by (rule last_entry_wins)
    moreover have "snd (?es ! j) = fst (payloads ! j)"
      using snds j that(1) by (metis nth_map)
    ultimately show ?thesis by (simp add: resolved_title_def)
  qed
  have once: "resolved_title extra served_words h payloads j =
                final_title extra served_words (snd (payloads ! j))
                  (the (title_of h (fst (payloads ! j))))"
    if "rewritten_once h payloads" "j < length payloads" for j
    using that assms(2) by (simp add: resolved_title_def resolved_once split_beta)
  from r at win once show ?thesis by blast
qed

theorem collisions_last_write_wins_witness:
  "length [(0::nat, ''h''), (1, ''h'')] \<ge> 2
   \<and> schema_pairs [[(''title'', PStr ''A:B'')], [(''title'', PStr ''C:B'')]] [(0, ''h''), (1, ''h'')]
   \<and> resolved_title '''' 1 [[(''title'', PStr ''A:B'')], [(''title'', PStr ''C:B'')]]
        [(0, ''h''), (1, ''h'')] 0 = ''h:B''
   \<and> resolved_title '''' 1 [[(''title'', PStr ''A:B'')], [(''title'', PStr ''C:B'')]]
        [(0, ''h''), (1, ''h'')] 1 = ''h:B''
   \<and> fst (resolve_payloads [(0, ''h''), (1, ''h'')] '''' 1
             [[(''title'', PStr ''A:B'')], [(''title'', PStr ''C:B'')]]) = Inr 3
   \<and> map_of (snd (resolve_payloads [(0, ''h''), (1, ''h'')] '''' 1
             [[(''title'', PStr ''A:B'')], [(''title'', PStr ''C:B'')]]) ! 2) ''h:B'' =
       Some (PRef 1)"
proof -
  let ?h = "[[(''title'', PStr ''A:B'')], [(''title'', PStr ''C:B'')]]"
  let ?ps = "[(0::nat, ''h''), (1, ''h'')]"
  have len: "length ?ps \<ge> 2" by simp
  have sp: "schema_pairs ?h ?ps" by code_simp
  have t0: "resolved_title '''' 1 ?h ?ps 0 = ''h:B''" by code_simp
  have t1: "resolved_title '''' 1 ?h ?ps 1 = ''h:B''" by code_simp
  from collisions_last_write_wins [OF len sp, of "''''" 1]
  obtain h' one_of where
    r: "resolve_payloads ?ps '''' 1 ?h = (Inr (Suc (length ?h)), h')"
    and d: "dict_at h' (length ?h) = Some one_of"
    and w: "\<forall>i j. i < j \<and> j < length ?ps
                 \<and> resolved_title '''' 1 ?h ?ps i = resolved_title '''' 1 ?h ?ps j
                 \<and> (\<forall>m. j < m \<and> m < length ?ps \<longrightarrow>
                       resolved_title '''' 1 ?h ?ps m \<noteq> resolved_title '''' 1 ?h ?ps j)
               \<longrightarrow> map_of one_of (resolved_title '''' 1 ?h ?ps j) = Some (PRef (fst (?ps ! j)))"
    by blast
  have later: "\<forall>m. 1 < m \<and> m < length ?ps \<longrightarrow>
                  resolved_title '''' 1 ?h ?ps m \<noteq> resolved_title '''' 1 ?h ?ps 1"
    by auto
  have "(0::nat) < 1 \<and> 1 < length ?ps" by simp
  with w [rule_format, of 0 1] t0 t1 later
  have "map_of one_of ''h:B'' = Some (PRef 1)" by simp
  moreover from d have "one_of = h' ! 2"
    by (simp add: dict_at_def numeral_2_eq_2 split: if_splits)
  ultimately show ?thesis using len sp t0 t1 r by simp
qed

text \<open>
  C9, amended: for two or more schema pairs in which no schema object with a title of
  more than one segment occurs twice, every key of the mapping under "oneOf" is the
  title, after the call, of the schema object stored at that key.
\<close>

theorem one_of_keys_are_titles:
  assumes "length payloads \<ge> 2" "schema_pairs h payloads" "rewritten_once h payloads"
  shows "\<exists>h' one_of.
           resolve_payloads payloads extra served_words h = (Inr (Suc (length h)), h')
           \<and> dict_at h' (Suc (length h)) = Some [(''oneOf'', PRef (length h))]
           \<and> dict_at h' (length h) = Some one_of
           \<and> (\<forall>(k, v) \<in> set one_of. \<exists>b. v = PRef b \<and> title_of h' b = Some k)"
proof -
  let ?es = "resolved extra served_words h payloads"
  let ?d = "file_entries [] ?es"
  let ?r = "retitled extra served_words h payloads"
  let ?h' = "?r @ [?d, [(''oneOf'', PRef (length h))]]"
  from assms have r: "resolve_payloads payloads extra served_words h = (Inr (Suc (length h)), ?h')"
    by (simp add: resolve_payloads_many)
  have at: "dict_at ?h' (length h) = Some ?d"
      "dict_at ?h' (Suc (length h)) = Some [(''oneOf'', PRef (length h))]"
    using dict_at_append_end [of ?r "length h"] by simp_all
  have keys: "\<forall>(k, v) \<in> set ?d. \<exists>b. v = PRef b \<and> title_of ?h' b = Some k"
  proof (clarify)
    fix k v assume "(k, v) \<in> set ?d"
    then obtain b where b: "v = PRef b" "(k, b) \<in> set ?es"
      using values_file_entries [of k v "[]" ?es] by auto
    from b(2) assms obtain n where n: "(b, n) \<in> set payloads"
        and k: "k = final_title extra served_words n (the (title_of h b))"
      by (auto simp: resolved_once)
    from assms(2) n obtain t where t: "title_of h b = Some t"
      by (blast dest: title_of_schema_pairs)
    then have len: "b < length h" by (rule title_of_length)
    have "?r ! b = AList.update ''title'' (PStr k) (h ! b)"
      using assms(2,3) n by (simp add: nth_retitled_once k)
    with len have "title_of ?r b = Some k"
      by (simp add: title_of_map_of update_conv')
    with len have "title_of ?h' b = Some k" by (simp add: title_of_append)
    with b(1) show "\<exists>b. v = PRef b \<and> title_of ?h' b = Some k" by blast
  qed
  from r at keys show ?thesis by blast
qed

theorem one_of_keys_are_titles_witness:
  "length [(0::nat, ''h''), (1, ''g'')] \<ge> 2
   \<and> schema_pairs [[(''title'', PStr ''A:B:C'')], [(''title'', PStr ''X'')]] [(0, ''h''), (1, ''g'')]
   \<and> rewritten_once [[(''title'', PStr ''A:B:C'')], [(''title'', PStr ''X'')]] [(0, ''h''), (1, ''g'')]
   \<and> dict_at (snd (resolve_payloads [(0, ''h''), (1, ''g'')] ''E'' 1
             [[(''title'', PStr ''A:B:C'')], [(''title'', PStr ''X'')]])) 2 =
       Some [(''h:E:B:C'', PRef 0), (''X'', PRef 1)]
   \<and> title_of (snd (resolve_payloads [(0, ''h''), (1, ''g'')] ''E'' 1
             [[(''title'', PStr ''A:B:C'')], [(''title'', PStr ''X'')]])) 0 = Some ''h:E:B:C''
   \<and> title_of (snd (resolve_payloads [(0, ''h''), (1, ''g'')] ''E'' 1
             [[(''title'', PStr ''A:B:C'')], [(''title'', PStr ''X'')]])) 1 = Some ''X''"
proof -
  let ?h = "[[(''title'', PStr ''A:B:C'')], [(''title'', PStr ''X'')]]"
  let ?ps = "[(0::nat, ''h''), (1, ''g'')]"
  have len: "length ?ps \<ge> 2" by simp
  have sp: "schema_pairs ?h ?ps" by code_simp
  have ro: "rewritten_once ?h ?ps" by code_simp
  have ev: "dict_at (snd (resolve_payloads ?ps ''E'' 1 ?h)) 2 =
              Some [(''h:E:B:C'', PRef 0), (''X'', PRef 1)]"
    by code_simp
  from one_of_keys_are_titles [OF len sp ro, of "''E''" 1]
  obtain h' one_of where
    r: "resolve_payloads ?ps ''E'' 1 ?h = (Inr (Suc (length ?h)), h')"
    and d: "dict_at h' (length ?h) = Some one_of"
    and k: "\<forall>(k, v) \<in> set one_of. \<exists>b. v = PRef b \<and> title_of h' b = Some k"
    by blast
  from ev r d have "one_of = [(''h:E:B:C'', PRef 0), (''X'', PRef 1)]"
    by (simp add: numeral_2_eq_2)
  with k have "title_of h' 0 = Some ''h:E:B:C''" "title_of h' 1 = Some ''X''" by auto
  with r ev len sp ro show ?thesis by simp
qed

text \<open>
  C9 as stated fails when one schema object occurs in two pairs: the second visit
  rewrites the title that the first visit filed it under.
\<close>

theorem one_of_keys_are_titles_counterexample:
  "dict_at (snd (resolve_payloads [(0, ''h1''), (0, ''h2'')] '''' 1 [[(''title'', PStr ''A:B'')]])) 1 =
     Some [(''h1:B'', PRef 0), (''h2:B'', PRef 0)]
   \<and> title_of (snd (resolve_payloads [(0, ''h1''), (0, ''h2'')] '''' 1 [[(''title'', PStr ''A:B'')]])) 0
       \<noteq> Some ''h1:B''"
  by code_simp

text \<open>
  C1, amended: for two or more schema pairs in which no schema object with a title of
  more than one segment occurs twice, and for \<open>served_words\<close> not below zero, each pair
  whose title has more than one segment has, after the call, the title made of the
  non-empty members of the handler name, the extra marker (if it is not one of the
  segments) and the segments after the first \<open>served_words\<close>, joined with ":"; the
  rest of the schema is as it was. For the title "A:B:C", the handler name "h" and
  \<open>served_words = 1\<close> this is "h:E:B:C" for the marker "E" and "h:B:C" for the marker
  "B".
\<close>

theorem resolve_payloads_rewrites_title:
  assumes "length payloads \<ge> 2" "schema_pairs h payloads" "rewritten_once h payloads"
    and "0 \<le> served_words"
    and "(schema, handler_name) \<in> set payloads" "title_of h schema = Some t"
    and "length (split_on CHR '':'' t) > 1"
  shows "\<exists>h'. resolve_payloads payloads extra served_words h = (Inr (Suc (length h)), h')
           \<and> title_of h' schema = Some (spec_title extra served_words handler_name t)
           \<and> dict_at h' schema =
               Some (AList.update ''title''
                       (PStr (spec_title extra served_words handler_name t)) (h ! schema))"
proof -
  let ?es = "resolved extra served_words h payloads"
  let ?d = "file_entries [] ?es"
  let ?r = "retitled extra served_words h payloads"
  let ?h' = "?r @ [?d, [(''oneOf'', PRef (length h))]]"
  let ?k = "spec_title extra served_words handler_name t"
  from assms have r: "resolve_payloads payloads extra served_words h = (Inr (Suc (length h)), ?h')"
    by (simp add: resolve_payloads_many)
  from assms(6) have len: "schema < length h" by (rule title_of_length)
  have k: "final_title extra served_words handler_name t = ?k"
    using assms(4,7) by (rule spec_title_final)
  have nth: "?r ! schema = AList.update ''title'' (PStr ?k) (h ! schema)"
    using nth_retitled_once [OF assms(2,3,5), of extra served_words] by (simp add: assms(6) k)
  with len have "title_of ?r schema = Some ?k"
    by (simp add: title_of_map_of update_conv')
  with len have t': "title_of ?h' schema = Some ?k" by (simp add: title_of_append)
  from len nth have "dict_at ?h' schema = Some (AList.update ''title'' (PStr ?k) (h ! schema))"
    by (simp add: dict_at_def nth_append)
  with r t' show ?thesis by blast
qed

theorem resolve_payloads_rewrites_title_witness:
  "length [(0::nat, ''h''), (1, ''g'')] \<ge> 2
   \<and> schema_pairs [[(''title'', PStr ''A:B:C'')], [(''title'', PStr ''X'')]] [(0, ''h''), (1, ''g'')]
   \<and> rewritten_once [[(''title'', PStr ''A:B:C'')], [(''title'', PStr ''X'')]] [(0, ''h''), (1, ''g'')]
   \<and> (0::int) \<le> 1
   \<and> (0, ''h'') \<in> set [(0::nat, ''h''), (1, ''g'')]
   \<and> title_of [[(''title'', PStr ''A:B:C'')], [(''title'', PStr ''X'')]] 0 = Some ''A:B:C''
   \<and> length (split_on CHR '':'' ''A:B:C'') > 1
   \<and> title_of (snd (resolve_payloads [(0, ''h''), (1, ''g'')] ''E'' 1
             [[(''title'', PStr ''A:B:C'')], [(''title'', PStr ''X'')]])) 0 = Some ''h:E:B:C''
   \<and> title_of (snd (resolve_payloads [(0, ''h''), (1, ''g'')] ''B'' 1
             [[(''title'', PStr ''A:B:C'')], [(''title'', PStr ''X'')]])) 0 = Some ''h:B:C''"
proof -
  let ?h = "[[(''title'', PStr ''A:B:C'')], [(''title'', PStr ''X'')]]"
  let ?ps = "[(0::nat, ''h''), (1, ''g'')]"
  have len: "length ?ps \<ge> 2" by simp
  have sp: "schema_pairs ?h ?ps" by code_simp
  have ro: "rewritten_once ?h ?ps" by code_simp
  have sw: "(0::int) \<le> 1" by simp
  have mem: "(0, ''h'') \<in> set ?ps" by simp
  have t: "title_of ?h 0 = Some ''A:B:C''" by code_simp
  have segs: "length (split_on CHR '':'' ''A:B:C'') > 1" by code_simp
  have e: "spec_title ''E'' 1 ''h'' ''A:B:C'' = ''h:E:B:C''" by code_simp
  have b: "spec_title ''B'' 1 ''h'' ''A:B:C'' = ''h:B:C''" by code_simp
  from resolve_payloads_rewrites_title [OF len sp ro sw mem t segs, of "''E''"] e
  have 1: "title_of (snd (resolve_payloads ?ps ''E'' 1 ?h)) 0 = Some ''h:E:B:C''" by auto
  from resolve_payloads_rewrites_title [OF len sp ro sw mem t segs, of "''B''"] b
  have 2: "title_of (snd (resolve_payloads ?ps ''B'' 1 ?h)) 0 = Some ''h:B:C''" by auto
  from len sp ro sw mem t segs 1 2 show ?thesis by simp
qed

text \<open>
  C1 as stated fails for a negative \<open>served_words\<close>, where the slice
  \<open>words[served_words:]\<close> keeps the last segments instead of dropping the first ones,
  and for a schema object that occurs in two pairs, whose title is rewritten twice.
\<close>

theorem resolve_payloads_rewrites_title_counterexample:
  "title_of (snd (resolve_payloads [(0, ''h''), (1, ''g'')] '''' (- 1)
             [[(''title'', PStr ''A:B:C'')], [(''title'', PStr ''X'')]])) 0 = Some ''h:C''
   \<and> spec_title '''' (- 1) ''h'' ''A:B:C'' = ''h:A:B:C''
   \<and> title_of (snd (resolve_payloads [(0, ''h1''), (0, ''h2'')] '''' 1
             [[(''title'', PStr ''A:B'')]])) 0 = Some ''h2:B''
   \<and> spec_title '''' 1 ''h1'' ''A:B'' = ''h1:B''
   \<and> title_of (snd (resolve_payloads [(0, ''h''), (1, ''g'')] '''' (- 1)
             [[(''title'', PStr ''A:B:C'')], [(''title'', PStr ''X'')]])) 0
       \<noteq> Some (spec_title '''' (- 1) ''h'' ''A:B:C'')
   \<and> title_of (snd (resolve_payloads [(0, ''h1''), (0, ''h2'')] '''' 1
             [[(''title'', PStr ''A:B'')]])) 0
       \<noteq> Some (spec_title '''' 1 ''h1'' ''A:B'')"
  by code_simp

section \<open>The publisher before it is bound\<close>

text \<open>
  C6: on a publisher whose producer reference is absent (\<open>_setup\<close> has not bound one),
  \<open>publish\<close> and \<open>request\<close> fail with the error NotReady and the list of the calls made
  on producers is the one before the call: no transport call is made.
\<close>

theorem publish_before_setup:
  assumes "producer pub = None"
  shows "publish pub message cid calls = (Inl NotReady, calls)
         \<and> request pub message cid calls = (Inl NotReady, calls)"
  using assms by (simp add: publish_def publish_cmd_def request_def)

theorem publish_before_setup_witness:
  "producer (add_middleware Some (new_publisher [])) = None
   \<and> publish (add_middleware Some (new_publisher [])) ''m'' None [] = (Inl NotReady, [])
   \<and> request (add_middleware Some (new_publisher [])) ''m'' None [] = (Inl NotReady, [])"
proof -
  have h: "producer (add_middleware Some (new_publisher [])) = None"
    by (simp add: add_middleware_def new_publisher_def)
  show ?thesis using h publish_before_setup [OF h, of "''m''" None "[]"] by simp
qed

end
